theory Spec2Isabelle
  imports Main
begin

section \<open>Texts and Python slicing\<close>

text \<open>
  A text is a Python \<open>str\<close>, modelled as a list of characters: one list element stands
  for one character of the \<open>str\<close>, \<open>len\<close> is \<open>length\<close>, and the code below
  compares characters only for equality; reading a file looks for the carriage return
  and the line feed.

  Python clamps the bounds of a slice: a negative bound counts from the end of the
  sequence and is raised to 0 when it is still negative, a bound beyond the end is
  lowered to the length. \<open>slice_index n i\<close> is the clamped bound \<open>i\<close> for a sequence
  of length \<open>n\<close>.
\<close>

definition slice_index :: "nat \<Rightarrow> int \<Rightarrow> nat" where
  "slice_index n i = (if i < 0 then nat (max 0 (int n + i)) else min n (nat i))"

definition slice_to :: "'a list \<Rightarrow> int \<Rightarrow> 'a list" where
  \<comment> \<open>\<open>s[:j]\<close>\<close>
  "slice_to s j = take (slice_index (length s) j) s"

definition slice_from :: "'a list \<Rightarrow> int \<Rightarrow> 'a list" where
  \<comment> \<open>\<open>s[i:]\<close>\<close>
  "slice_from s i = drop (slice_index (length s) i) s"

definition slice :: "'a list \<Rightarrow> int \<Rightarrow> int \<Rightarrow> 'a list" where
  \<comment> \<open>\<open>s[i:j]\<close>\<close>
  "slice s i j = drop (slice_index (length s) i) (take (slice_index (length s) j) s)"

section \<open>Change operations\<close>

text \<open>
  A change is the dict \<open>{'type': ..., 'position': ..., 'content': ..., 'length': ...}\<close>.
  Every key may be absent (\<open>None\<close>): \<open>change['k']\<close> raises \<open>KeyError\<close> on an absent key
  and \<open>change.get('length', 0)\<close> reads an absent length as 0. The values have the types
  the code computes with: a string, two integers and a text.
\<close>

record change =
  c_type :: "string option"
  c_position :: "int option"
  c_content :: "string option"
  c_length :: "int option"

definition replace_op :: "int \<Rightarrow> int \<Rightarrow> string \<Rightarrow> change" where
  \<comment> \<open>the dict literal that \<open>calculate_diff\<close> builds\<close>
  "replace_op p l txt =
     \<lparr>c_type = Some ''replace'', c_position = Some p, c_content = Some txt, c_length = Some l\<rparr>"

section \<open>The diff: \<open>FileManager.calculate_diff\<close>\<close>

text \<open>The first \<open>while\<close> loop: the scan for the common prefix, from \<open>prefix_len\<close> on.\<close>

function prefix_scan :: "string \<Rightarrow> string \<Rightarrow> nat \<Rightarrow> nat" where
  "prefix_scan old_content new_content prefix_len =
     (if prefix_len < length old_content \<and> prefix_len < length new_content
         \<and> old_content ! prefix_len = new_content ! prefix_len
      then prefix_scan old_content new_content (prefix_len + 1)
      else prefix_len)"
  by pat_completeness auto
termination
  by (relation "measure (\<lambda>(old_content, new_content, prefix_len). length old_content - prefix_len)")
     auto

text \<open>
  The second \<open>while\<close> loop: the scan for the common suffix, capped by \<open>max_suffix\<close>.
  Both indices are in range when they are read, since \<open>suffix_len < max_suffix\<close>.
\<close>

function suffix_scan :: "string \<Rightarrow> string \<Rightarrow> nat \<Rightarrow> nat \<Rightarrow> nat" where
  "suffix_scan old_content new_content max_suffix suffix_len =
     (if suffix_len < max_suffix
         \<and> old_content ! (length old_content - 1 - suffix_len)
           = new_content ! (length new_content - 1 - suffix_len)
      then suffix_scan old_content new_content max_suffix (suffix_len + 1)
      else suffix_len)"
  by pat_completeness auto
termination
  by (relation "measure (\<lambda>(old_content, new_content, max_suffix, suffix_len).
                   max_suffix - suffix_len)")
     auto

declare prefix_scan.simps [simp del]
declare suffix_scan.simps [simp del]

definition calculate_diff :: "string \<Rightarrow> string \<Rightarrow> change list" where
  "calculate_diff old_content new_content =
     (if old_content = [] \<and> new_content \<noteq> [] then [replace_op 0 0 new_content]
      else if old_content \<noteq> [] \<and> new_content = []
        then [replace_op 0 (int (length old_content)) []]
      else
        let prefix_len = prefix_scan old_content new_content 0;
            max_suffix = min (length old_content - prefix_len) (length new_content - prefix_len);
            suffix_len = suffix_scan old_content new_content max_suffix 0;
            old_middle = slice old_content (int prefix_len)
                           (int (length old_content) - int suffix_len);
            new_middle = slice new_content (int prefix_len)
                           (int (length new_content) - int suffix_len)
        in if old_middle \<noteq> new_middle
           then [replace_op (int prefix_len) (int (length old_middle)) new_middle]
           else [])"

section \<open>Applying a change list: the loop of \<open>FileManager.apply_changes\<close>\<close>

datatype apply_error = InvalidPosition | KeyError string

text \<open>
  The body of the \<open>for\<close> loop on one change. A change whose type is not
  \<open>'replace'\<close> is skipped; the keys are read in the order of the source.
\<close>

definition apply_change :: "string \<Rightarrow> change \<Rightarrow> apply_error + string" where
  "apply_change content change =
     (case c_type change of
        None \<Rightarrow> Inl (KeyError ''type'')
      | Some ty \<Rightarrow>
          if ty = ''replace'' then
            (case c_position change of
               None \<Rightarrow> Inl (KeyError ''position'')
             | Some position \<Rightarrow>
                 let len = (case c_length change of None \<Rightarrow> 0 | Some l \<Rightarrow> l) in
                 (case c_content change of
                    None \<Rightarrow> Inl (KeyError ''content'')
                  | Some new_content \<Rightarrow>
                      if position < 0 \<or> position > int (length content)
                      then Inl InvalidPosition
                      else Inr (slice_to content position @ new_content
                                  @ slice_from content (position + len))))
          else Inr content)"

text \<open>
  The loop over an iterator: the changes are applied in the order of the list given,
  and the first failure leaves the loop. \<open>apply_changes\<close> runs it on
  \<open>reversed(changes)\<close>.
\<close>

fun apply_loop :: "string \<Rightarrow> change list \<Rightarrow> apply_error + string" where
  "apply_loop content [] = Inr content"
| "apply_loop content (change # rest) =
     (case apply_change content change of
        Inl e \<Rightarrow> Inl e
      | Inr content' \<Rightarrow> apply_loop content' rest)"

section \<open>The file system\<close>

text \<open>
  The files the program reads and writes, and what the environment does to a call.

  \<open>files\<close> maps a path to the text stored there. \<open>Path.read_text\<close> opens the file
  in text mode, with universal newlines: a carriage return followed by a line feed, and
  a carriage return alone, come back as one line feed. Reading a path that holds no
  file raises.

  \<open>Path.write_text\<close> opens the file for writing, which empties it, and then writes
  the text; line feeds are stored as they are, the line separator of the platform being
  the line feed. \<open>on_write\<close> gives, for the files as they are, a path and a text, what
  happens: the text is written; or the file cannot be opened, the call raises and the
  file is as it was; or the call raises after the file was opened, and the file holds
  what is left then (nothing when the text cannot be encoded, a part of the text when
  the space runs out).

  \<open>can_mkdir\<close> says whether the directory of a path is there or can be made, and
  \<open>resolve\<close> is \<open>Path.resolve\<close>, which depends on the working directory and on the
  links of the system.
\<close>

datatype write_outcome = Written | Refused | Broken string

record filesystem =
  files :: "string \<rightharpoonup> string"
  on_write :: "(string \<rightharpoonup> string) \<Rightarrow> string \<Rightarrow> string \<Rightarrow> write_outcome"
  can_mkdir :: "string \<Rightarrow> bool"
  resolve :: "string \<Rightarrow> string"

datatype os_error = OSError

fun universal_newlines :: "string \<Rightarrow> string" where
  "universal_newlines [] = []"
| "universal_newlines [c] = (if c = CHR 0x0D then [CHR 0x0A] else [c])"
| "universal_newlines (c # d # rest) =
     (if c = CHR 0x0D \<and> d = CHR 0x0A then CHR 0x0A # universal_newlines rest
      else if c = CHR 0x0D then CHR 0x0A # universal_newlines (d # rest)
      else c # universal_newlines (d # rest))"

definition read_text :: "filesystem \<Rightarrow> string \<Rightarrow> os_error + string" where
  "read_text fs path =
     (case files fs path of None \<Rightarrow> Inl OSError | Some stored \<Rightarrow> Inr (universal_newlines stored))"

text \<open>A call of \<open>write_text\<close> that raises gives the error and the file system it leaves.\<close>

definition write_text ::
  "filesystem \<Rightarrow> string \<Rightarrow> string \<Rightarrow> os_error \<times> filesystem + filesystem" where
  "write_text fs path content =
     (case on_write fs (files fs) path content of
        Written \<Rightarrow> Inr (fs\<lparr>files := (files fs)(path \<mapsto> content)\<rparr>)
      | Refused \<Rightarrow> Inl (OSError, fs)
      | Broken left \<Rightarrow> Inl (OSError, fs\<lparr>files := (files fs)(path \<mapsto> left)\<rparr>))"

definition writable :: "filesystem \<Rightarrow> string \<Rightarrow> string \<Rightarrow> bool" where
  \<comment> \<open>writing this text to this path succeeds\<close>
  "writable fs path content \<longleftrightarrow> on_write fs (files fs) path content = Written"

section \<open>\<open>FileManager\<close>\<close>

text \<open>
  The fields of a \<open>FileManager\<close> that its operations read. \<open>last_modified\<close> and
  \<open>content_hash\<close> are written by \<open>load_metadata\<close>, which catches every exception of
  its own, and are read by \<open>get_file_info\<close> only; they are left out, and with them the
  call of \<open>load_metadata\<close>. \<open>file_path\<close> is the resolved path.
\<close>

record file_manager =
  file_path :: string
  version :: int

definition ensure_file_exists ::
  "filesystem \<Rightarrow> string \<Rightarrow> os_error \<times> filesystem + filesystem" where
  "ensure_file_exists fs path =
     (if \<not> can_mkdir fs path then Inl (OSError, fs)
      else case files fs path of None \<Rightarrow> write_text fs path [] | Some _ \<Rightarrow> Inr fs)"

definition FileManager_init ::
  "filesystem \<Rightarrow> string \<Rightarrow> os_error \<times> filesystem + file_manager \<times> filesystem" where
  "FileManager_init fs path =
     (case ensure_file_exists fs (resolve fs path) of
        Inl e \<Rightarrow> Inl e
      | Inr fs' \<Rightarrow> Inr (\<lparr>file_path = resolve fs path, version = 0\<rparr>, fs'))"

definition increment_version :: "file_manager \<Rightarrow> file_manager" where
  "increment_version fm = fm\<lparr>version := version fm + 1\<rparr>"

definition validate_version :: "file_manager \<Rightarrow> int \<Rightarrow> bool" where
  "validate_version fm expected_version = (version fm = expected_version)"

definition get_content :: "filesystem \<Rightarrow> file_manager \<Rightarrow> string" where
  "get_content fs fm = (case read_text fs (file_path fm) of Inl _ \<Rightarrow> [] | Inr content \<Rightarrow> content)"

definition get_version :: "file_manager \<Rightarrow> int" where
  "get_version fm = version fm"

definition update_full_content ::
  "file_manager \<Rightarrow> filesystem \<Rightarrow> string \<Rightarrow> bool \<times> file_manager \<times> filesystem" where
  "update_full_content fm fs content =
     (case write_text fs (file_path fm) content of
        Inl (_, fs') \<Rightarrow> (False, fm, fs')
      | Inr fs' \<Rightarrow> (True, increment_version fm, fs'))"

definition str_KeyError :: "string \<Rightarrow> string" where
  \<comment> \<open>\<open>str(KeyError(k))\<close>: the key between single quotes\<close>
  "str_KeyError k = CHR 0x27 # k @ [CHR 0x27]"

text \<open>
  \<open>apply_changes\<close> returns the pair \<open>(success, message)\<close>; the model returns the
  \<open>FileManager\<close> and the file system after the call with it.
\<close>

definition apply_changes ::
  "file_manager \<Rightarrow> filesystem \<Rightarrow> change list \<Rightarrow> int option
     \<Rightarrow> (bool \<times> string) \<times> file_manager \<times> filesystem" where
  "apply_changes fm fs changes expected_version =
     (if (case expected_version of None \<Rightarrow> False | Some ev \<Rightarrow> \<not> validate_version fm ev)
      then ((False, ''version_mismatch''), fm, fs)
      else
        let content = get_content fs fm in
        (case apply_loop content (rev changes) of
           Inl InvalidPosition \<Rightarrow> ((False, ''invalid_position''), fm, fs)
         | Inl (KeyError k) \<Rightarrow> ((False, str_KeyError k), fm, fs)
         | Inr content' \<Rightarrow>
             (case update_full_content fm fs content' of
                (True, fm', fs') \<Rightarrow> ((True, ''success''), fm', fs')
              | (False, fm', fs') \<Rightarrow> ((False, ''write_failed''), fm', fs'))))"

section \<open>\<open>FileManagerPool\<close>\<close>

text \<open>
  The state of the program: the file system, the \<open>FileManager\<close> objects that were
  constructed, and the dict \<open>managers\<close> of the pool, whose keys are the paths as the
  callers give them. An object is known by its place in \<open>objects\<close>; that number is the
  reference a caller of \<open>get_manager\<close> holds, and a new object takes the next free
  place. A call of \<open>get_manager\<close> that raises gives the error and the state it leaves.
\<close>

record state =
  disk :: filesystem
  objects :: "file_manager list"
  managers :: "string \<rightharpoonup> nat"

definition FileManagerPool_init :: "filesystem \<Rightarrow> state" where
  "FileManagerPool_init fs = \<lparr>disk = fs, objects = [], managers = Map.empty\<rparr>"

definition get_manager :: "state \<Rightarrow> string \<Rightarrow> os_error \<times> state + nat \<times> state" where
  "get_manager st path =
     (case managers st path of
        Some ref \<Rightarrow> Inr (ref, st)
      | None \<Rightarrow>
          (case FileManager_init (disk st) path of
             Inl (e, fs') \<Rightarrow> Inl (e, st\<lparr>disk := fs'\<rparr>)
           | Inr (fm, fs') \<Rightarrow>
               Inr (length (objects st),
                    st\<lparr>disk := fs', objects := objects st @ [fm],
                       managers := (managers st)(path \<mapsto> length (objects st))\<rparr>)))"

text \<open>
  What a caller does with the pool and with the references it holds. A reference always
  points to an object that exists, so a call through a number that is no reference does
  nothing. \<open>remove_manager\<close> is no action here: the pool has it, and no caller in the
  repository uses it.
\<close>

datatype action =
    Get_manager string
  | Update_full_content nat string
  | Apply_changes nat "change list" "int option"

fun step :: "state \<Rightarrow> action \<Rightarrow> state" where
  "step st (Get_manager path) =
     (case get_manager st path of Inl (_, st') \<Rightarrow> st' | Inr (_, st') \<Rightarrow> st')"
| "step st (Update_full_content ref content) =
     (if ref < length (objects st) then
        (case update_full_content (objects st ! ref) (disk st) content of
           (_, fm', fs') \<Rightarrow> st\<lparr>disk := fs', objects := (objects st)[ref := fm']\<rparr>)
      else st)"
| "step st (Apply_changes ref changes expected_version) =
     (if ref < length (objects st) then
        (case apply_changes (objects st ! ref) (disk st) changes expected_version of
           (_, fm', fs') \<Rightarrow> st\<lparr>disk := fs', objects := (objects st)[ref := fm']\<rparr>)
      else st)"

definition run :: "state \<Rightarrow> action list \<Rightarrow> state" where
  "run st acts = foldl step st acts"

text \<open>
  How many \<open>FileManager\<close> objects the calls \<open>get_manager(key)\<close> of a sequence of
  actions construct, from a given state on: the calls for that key after which there is
  one object more.
\<close>

fun constructions :: "state \<Rightarrow> action list \<Rightarrow> string \<Rightarrow> nat" where
  "constructions st [] key = 0"
| "constructions st (a # acts) key =
     (if a = Get_manager key \<and> length (objects st) < length (objects (step st a)) then 1 else 0)
       + constructions (step st a) acts key"

section \<open>Patches as the specification reads them\<close>

text \<open>
  The operations of the specification are triples of position, length and replacement.
  Its splice of one operation into a working text fails where the position is beyond the
  text, and else puts the replacement between the text before the position and the text
  from position plus length on; \<open>spec_apply_in_order\<close> splices the operations of a
  list one after another, in the order of the list.
\<close>

definition spec_splice :: "string \<Rightarrow> nat \<times> nat \<times> string \<Rightarrow> apply_error + string" where
  "spec_splice working t =
     (case t of (p, l, r) \<Rightarrow>
        if length working < p then Inl InvalidPosition
        else Inr (take p working @ r @ drop (p + l) working))"

fun spec_apply_in_order :: "string \<Rightarrow> (nat \<times> nat \<times> string) list \<Rightarrow> apply_error + string" where
  "spec_apply_in_order working [] = Inr working"
| "spec_apply_in_order working (t # ts) =
     (case spec_splice working t of
        Inl e \<Rightarrow> Inl e
      | Inr working' \<Rightarrow> spec_apply_in_order working' ts)"

definition descending :: "(nat \<times> nat \<times> string) list \<Rightarrow> (nat \<times> nat \<times> string) list" where
  \<comment> \<open>the operations in descending order of position\<close>
  "descending ops = rev (sort_key fst ops)"

text \<open>
  The reading in which every position is measured in the text before the patch:
  \<open>splice_original original cur ops\<close> copies the original text from the cursor
  \<open>cur\<close> up to the position of the next operation, puts the replacement there, skips
  the characters the operation deletes and goes on.
\<close>

fun splice_original :: "string \<Rightarrow> nat \<Rightarrow> (nat \<times> nat \<times> string) list \<Rightarrow> string" where
  "splice_original original cur [] = drop cur original"
| "splice_original original cur ((p, l, r) # ops) =
     take (p - cur) (drop cur original) @ r @ splice_original original (p + l) ops"

definition op_of :: "nat \<times> nat \<times> string \<Rightarrow> change" where
  \<comment> \<open>the dict of an operation\<close>
  "op_of t = (case t of (p, l, r) \<Rightarrow> replace_op (int p) (int l) r)"

definition disjoint_ascending :: "(nat \<times> nat \<times> string) list \<Rightarrow> bool" where
  \<comment> \<open>submitted in ascending order of position, no operation reaching into a later one\<close>
  "disjoint_ascending ops = sorted_wrt (\<lambda>a b. fst a + fst (snd a) \<le> fst b) ops"

section \<open>The invariant of the pool\<close>

text \<open>Every reference the dict \<open>managers\<close> holds points to an object.\<close>

definition pool_inv :: "state \<Rightarrow> bool" where
  "pool_inv st \<longleftrightarrow> (\<forall>key ref. managers st key = Some ref \<longrightarrow> ref < length (objects st))"

section \<open>Example states\<close>

text \<open>
  An environment where every write succeeds, every directory can be made and a path
  resolves to itself under \<open>/srv/\<close>. On it: no file; the note \<open>hello\<close>; the note
  \<open>abcdef\<close>; a note of two lines with a carriage return and a line feed between them.
  A \<open>FileManager\<close> of the note after two updates, and the state of the program after
  the first \<open>get_manager('note.txt')\<close> where there was no file.
\<close>

definition fs_with :: "(string \<rightharpoonup> string) \<Rightarrow> filesystem" where
  "fs_with fls = \<lparr>files = fls, on_write = (\<lambda>_ _ _. Written), can_mkdir = (\<lambda>_. True),
                   resolve = (\<lambda>path. ''/srv/'' @ path)\<rparr>"

definition empty_fs :: filesystem where
  "empty_fs = fs_with Map.empty"

definition note_fs :: filesystem where
  "note_fs = fs_with [''/srv/note.txt'' \<mapsto> ''hello'']"

definition abc_fs :: filesystem where
  "abc_fs = fs_with [''/srv/note.txt'' \<mapsto> ''abcdef'']"


definition note_fm :: file_manager where
  "note_fm = \<lparr>file_path = ''/srv/note.txt'', version = 2\<rparr>"

definition note_st :: state where
  "note_st = \<lparr>disk = fs_with [''/srv/note.txt'' \<mapsto> []],
             objects = [\<lparr>file_path = ''/srv/note.txt'', version = 0\<rparr>],
             managers = [''note.txt'' \<mapsto> 0]\<rparr>"

section \<open>Properties of the slices and of the two scans\<close>

lemma prefix_scan_bounds:
  "p \<le> length a \<Longrightarrow> p \<le> length b \<Longrightarrow>
   p \<le> prefix_scan a b p \<and> prefix_scan a b p \<le> length a \<and> prefix_scan a b p \<le> length b"
proof (induction a b p rule: prefix_scan.induct)
  case (1 a b p)
  show ?case
  proof (cases "p < length a \<and> p < length b \<and> a ! p = b ! p")
    case True
    with "1.IH" have "p + 1 \<le> prefix_scan a b (p + 1) \<and> prefix_scan a b (p + 1) \<le> length a
        \<and> prefix_scan a b (p + 1) \<le> length b" by simp
    moreover from True have "prefix_scan a b p = prefix_scan a b (p + 1)"
      by (subst prefix_scan.simps) simp
    ultimately show ?thesis by simp
  next
    case False
    then have "prefix_scan a b p = p" by (subst prefix_scan.simps) auto
    with "1.prems" show ?thesis by simp
  qed
qed

lemma prefix_scan_common:
  "take p a = take p b \<Longrightarrow> take (prefix_scan a b p) a = take (prefix_scan a b p) b"
proof (induction a b p rule: prefix_scan.induct)
  case (1 a b p)
  show ?case
  proof (cases "p < length a \<and> p < length b \<and> a ! p = b ! p")
    case True
    then have "take (p + 1) a = take (p + 1) b"
      using "1.prems" by (simp add: take_Suc_conv_app_nth)
    with "1.IH" True have "take (prefix_scan a b (p + 1)) a = take (prefix_scan a b (p + 1)) b"
      by simp
    moreover from True have "prefix_scan a b p = prefix_scan a b (p + 1)"
      by (subst prefix_scan.simps) simp
    ultimately show ?thesis by simp
  next
    case False
    then have "prefix_scan a b p = p" by (subst prefix_scan.simps) auto
    with "1.prems" show ?thesis by simp
  qed
qed

lemma suffix_scan_bounds:
  "s \<le> m \<Longrightarrow> s \<le> suffix_scan a b m s \<and> suffix_scan a b m s \<le> m"
proof (induction a b m s rule: suffix_scan.induct)
  case (1 a b m s)
  show ?case
  proof (cases "s < m \<and> a ! (length a - 1 - s) = b ! (length b - 1 - s)")
    case True
    with "1.IH" have "s + 1 \<le> suffix_scan a b m (s + 1) \<and> suffix_scan a b m (s + 1) \<le> m"
      by simp
    moreover from True have "suffix_scan a b m s = suffix_scan a b m (s + 1)"
      by (subst suffix_scan.simps) simp
    ultimately show ?thesis by simp
  next
    case False
    then have "suffix_scan a b m s = s" by (subst suffix_scan.simps) auto
    with "1.prems" show ?thesis by simp
  qed
qed

lemma drop_one_more:
  "s < length a \<Longrightarrow> drop (length a - (s + 1)) a = a ! (length a - 1 - s) # drop (length a - s) a"
proof -
  assume h: "s < length a"
  then have "length a - 1 - s < length a" by simp
  then have "a ! (length a - 1 - s) # drop (Suc (length a - 1 - s)) a = drop (length a - 1 - s) a"
    by (rule Cons_nth_drop_Suc)
  moreover from h have "Suc (length a - 1 - s) = length a - s" by simp
  moreover have "length a - 1 - s = length a - (s + 1)" by simp
  ultimately show ?thesis by simp
qed

lemma suffix_scan_common:
  "m \<le> length a \<Longrightarrow> m \<le> length b \<Longrightarrow>
   drop (length a - s) a = drop (length b - s) b \<Longrightarrow>
   drop (length a - suffix_scan a b m s) a = drop (length b - suffix_scan a b m s) b"
proof (induction a b m s rule: suffix_scan.induct)
  case (1 a b m s)
  show ?case
  proof (cases "s < m \<and> a ! (length a - 1 - s) = b ! (length b - 1 - s)")
    case True
    then have sa: "s < length a" and sb: "s < length b" using "1.prems" by auto
    have "drop (length a - (s + 1)) a = drop (length b - (s + 1)) b"
      using True "1.prems"(3) drop_one_more [OF sa] drop_one_more [OF sb] by simp
    with "1.IH" True "1.prems"
    have "drop (length a - suffix_scan a b m (s + 1)) a = drop (length b - suffix_scan a b m (s + 1)) b"
      by simp
    moreover from True have "suffix_scan a b m s = suffix_scan a b m (s + 1)"
      by (subst suffix_scan.simps) simp
    ultimately show ?thesis by simp
  next
    case False
    then have "suffix_scan a b m s = s" by (subst suffix_scan.simps) auto
    with "1.prems" show ?thesis by simp
  qed
qed

lemma slice_index_nonneg [simp]: "slice_index n (int k) = min n k"
  by (simp add: slice_index_def)

lemma slice_middle:
  "p + s \<le> length a \<Longrightarrow> slice a (int p) (int (length a) - int s) = drop p (take (length a - s) a)"
proof -
  assume h: "p + s \<le> length a"
  then have e: "int (length a) - int s = int (length a - s)" by simp
  have "slice a (int p) (int (length a - s))
          = drop (min (length a) p) (take (min (length a) (length a - s)) a)"
    unfolding slice_def by (simp only: slice_index_nonneg)
  also have "\<dots> = drop p (take (length a - s) a)" using h by (simp add: min_def)
  finally show ?thesis by (simp only: e)
qed

lemma split3:
  "p + s \<le> length a \<Longrightarrow> take p a @ drop p (take (length a - s) a) @ drop (length a - s) a = a"
proof -
  assume h: "p + s \<le> length a"
  then have "p \<le> length a - s" by simp
  then have "take p a = take p (take (length a - s) a)" by (simp add: min_def)
  then have "take p a @ drop p (take (length a - s) a) = take (length a - s) a"
    by (simp only: append_take_drop_id)
  then show ?thesis by (simp only: append_assoc [symmetric] append_take_drop_id)
qed

section \<open>Properties of the diff\<close>

lemma apply_change_replace_op:
  "p \<le> length t \<Longrightarrow>
   apply_change t (replace_op (int p) (int l) r) = Inr (take p t @ r @ drop (p + l) t)"
proof -
  assume h: "p \<le> length t"
  have "int p + int l = int (p + l)" by simp
  then have "slice_from t (int p + int l) = drop (p + l) t"
    unfolding slice_from_def by (simp only: slice_index_nonneg) (simp add: min_def)
  moreover have "slice_to t (int p) = take p t"
    unfolding slice_to_def using h by (simp add: min_def)
  ultimately show ?thesis using h by (simp add: apply_change_def replace_op_def)
qed

lemma diff_general_shape:
  "\<not> (a = [] \<and> b \<noteq> []) \<Longrightarrow> \<not> (a \<noteq> [] \<and> b = []) \<Longrightarrow>
   \<exists>p s. p + s \<le> length a \<and> p + s \<le> length b
       \<and> take p a = take p b \<and> drop (length a - s) a = drop (length b - s) b
       \<and> calculate_diff a b =
           (if drop p (take (length a - s) a) \<noteq> drop p (take (length b - s) b)
            then [replace_op (int p) (int (length a - s - p)) (drop p (take (length b - s) b))]
            else [])"
proof -
  assume n1: "\<not> (a = [] \<and> b \<noteq> [])" and n2: "\<not> (a \<noteq> [] \<and> b = [])"
  define p where "p = prefix_scan a b 0"
  define m where "m = min (length a - p) (length b - p)"
  define s where "s = suffix_scan a b m 0"
  have pb: "p \<le> length a" "p \<le> length b"
    using prefix_scan_bounds [of 0 a b] by (simp_all add: p_def)
  have sm: "s \<le> m" using suffix_scan_bounds [of 0 m a b] by (simp add: s_def)
  from sm have "s \<le> length a - p" and "s \<le> length b - p"
    by (simp_all add: m_def)
  with pb have la: "p + s \<le> length a" and lb: "p + s \<le> length b"
    by linarith+
  have pre: "take p a = take p b"
    using prefix_scan_common [of 0 a b] by (simp add: p_def)
  have suf: "drop (length a - s) a = drop (length b - s) b"
    using suffix_scan_common [of m a b 0] by (simp add: s_def m_def)
  have ma: "slice a (int p) (int (length a) - int s) = drop p (take (length a - s) a)"
    using la by (rule slice_middle)
  have mb: "slice b (int p) (int (length b) - int s) = drop p (take (length b - s) b)"
    using lb by (rule slice_middle)
  have len: "length (drop p (take (length a - s) a)) = length a - s - p"
    by simp
  have "calculate_diff a b =
           (if drop p (take (length a - s) a) \<noteq> drop p (take (length b - s) b)
            then [replace_op (int p) (int (length a - s - p)) (drop p (take (length b - s) b))]
            else [])"
    using n1 n2 unfolding calculate_diff_def Let_def
    by (simp only: p_def [symmetric] m_def [symmetric] s_def [symmetric] ma mb len if_False)
  with la lb pre suf show ?thesis by blast
qed

section \<open>Properties of the loop\<close>

lemma apply_loop_append:
  "apply_loop content (xs @ ys) =
     (case apply_loop content xs of Inl e \<Rightarrow> Inl e | Inr content' \<Rightarrow> apply_loop content' ys)"
  by (induction xs arbitrary: content) (auto split: sum.splits)

lemma apply_change_beyond:
  "length t < p \<Longrightarrow> apply_change t (replace_op (int p) (int l) r) = Inl InvalidPosition"
  by (simp add: apply_change_def replace_op_def)

lemma apply_change_op_of: "apply_change working (op_of t) = spec_splice working t"
proof -
  obtain p l r where t: "t = (p, l, r)" by (cases t)
  show ?thesis
  proof (cases "length working < p")
    case True
    then show ?thesis by (simp add: t op_of_def spec_splice_def apply_change_beyond)
  next
    case False
    then have "p \<le> length working" by simp
    from apply_change_replace_op [OF this, of l r] False show ?thesis
      by (simp add: t op_of_def spec_splice_def)
  qed
qed

lemma apply_loop_spec:
  "apply_loop working (map op_of ops) = spec_apply_in_order working ops"
  by (induction ops arbitrary: working) (auto simp: apply_change_op_of split: sum.splits)

lemma spec_apply_in_order_append:
  "spec_apply_in_order working (xs @ ys) =
     (case spec_apply_in_order working xs of
        Inl e \<Rightarrow> Inl e
      | Inr working' \<Rightarrow> spec_apply_in_order working' ys)"
  by (induction xs arbitrary: working) (auto split: sum.splits)

lemma spec_apply_in_order_InvalidPosition:
  "spec_apply_in_order working ops = Inl e \<Longrightarrow> e = InvalidPosition"
  by (induction ops arbitrary: working) (auto simp: spec_splice_def split: sum.splits if_splits)

lemma spec_splice_original:
  "disjoint_ascending ops \<Longrightarrow> \<forall>x\<in>set ops. fst x \<le> length original \<Longrightarrow>
   \<forall>x\<in>set ops. cur \<le> fst x \<Longrightarrow>
   spec_apply_in_order original (rev ops)
     = Inr (take cur original @ splice_original original cur ops)"
proof (induction ops arbitrary: cur)
  case Nil
  then show ?case by simp
next
  case (Cons x ops)
  obtain p l r where x: "x = (p, l, r)" by (cases x)
  have pl: "p \<le> length original" and cp: "cur \<le> p"
    using Cons.prems x by simp_all
  have d: "disjoint_ascending ops" and later: "\<forall>y\<in>set ops. p + l \<le> fst y"
    using Cons.prems(1) x by (auto simp: disjoint_ascending_def)
  have b: "\<forall>y\<in>set ops. fst y \<le> length original" using Cons.prems(2) by simp
  define rest where "rest = splice_original original (p + l) ops"
  have ih: "spec_apply_in_order original (rev ops) = Inr (take (p + l) original @ rest)"
    unfolding rest_def using Cons.IH [OF d b later] .
  have rest_nil: "length original < p + l \<Longrightarrow> rest = []"
  proof -
    assume far: "length original < p + l"
    have "ops = []"
    proof (cases ops)
      case (Cons y ys)
      then have "p + l \<le> fst y" and "fst y \<le> length original" using later b by simp_all
      with far show ?thesis by simp
    qed simp
    then show "rest = []" using far by (simp add: rest_def)
  qed
  have len: "\<not> length (take (p + l) original @ rest) < p" using pl by simp
  have tk: "take p (take (p + l) original @ rest) = take p original"
    using pl by (simp add: min_def)
  have dr: "drop (p + l) (take (p + l) original @ rest) = rest"
  proof (cases "p + l \<le> length original")
    case True
    then show ?thesis by simp
  next
    case False
    then have "rest = []" using rest_nil by simp
    then show ?thesis by simp
  qed
  have "spec_apply_in_order original (rev (x # ops))
          = spec_splice (take (p + l) original @ rest) (p, l, r)"
    by (simp add: spec_apply_in_order_append ih x split: sum.splits)
  also have "\<dots> = Inr (take p original @ r @ rest)"
    using len by (simp only: spec_splice_def prod.case if_False tk dr)
  also have "take p original = take cur original @ take (p - cur) (drop cur original)"
    using cp by (metis take_add le_add_diff_inverse)
  finally show ?case by (simp add: x rest_def)
qed

lemma descending_of_sorted: "sorted (map fst ops) \<Longrightarrow> descending ops = rev ops"
  by (simp add: descending_def sort_key_id_if_sorted)

section \<open>Properties of reading and writing\<close>



lemma get_content_after_write:
  "get_content (fs\<lparr>files := (files fs)(file_path fm \<mapsto> content)\<rparr>) fm'
     = (if file_path fm' = file_path fm then universal_newlines content else get_content fs fm')"
  by (simp add: get_content_def read_text_def)


section \<open>Properties of the operations of a \<open>FileManager\<close>\<close>

lemma update_full_content_version:
  "update_full_content fm fs content = (ok, fm', fs') \<Longrightarrow>
   version fm' = (if ok then version fm + 1 else version fm) \<and> file_path fm' = file_path fm"
  by (auto simp: update_full_content_def increment_version_def split: sum.splits prod.splits)

lemma update_full_content_success:
  "writable fs (file_path fm) content \<Longrightarrow>
   update_full_content fm fs content =
     (True, fm\<lparr>version := version fm + 1\<rparr>, fs\<lparr>files := (files fs)(file_path fm \<mapsto> content)\<rparr>)"
  by (simp add: update_full_content_def write_text_def writable_def increment_version_def)

lemma apply_changes_version:
  "apply_changes fm fs changes ev = ((ok, msg), fm', fs') \<Longrightarrow>
   version fm' = (if ok then version fm + 1 else version fm) \<and> file_path fm' = file_path fm"
  unfolding apply_changes_def Let_def
  by (auto split: if_splits sum.splits apply_error.splits prod.splits bool.splits
           dest: update_full_content_version)

lemma apply_changes_success:
  "writable fs (file_path fm) content' \<Longrightarrow> ev = None \<or> ev = Some (version fm) \<Longrightarrow>
   apply_loop (get_content fs fm) (rev changes) = Inr content' \<Longrightarrow>
   apply_changes fm fs changes ev =
     ((True, ''success''), fm\<lparr>version := version fm + 1\<rparr>,
      fs\<lparr>files := (files fs)(file_path fm \<mapsto> content')\<rparr>)"
  by (auto simp: apply_changes_def validate_version_def update_full_content_success)

lemma apply_changes_invalid:
  "ev = None \<or> ev = Some (version fm) \<Longrightarrow>
   apply_loop (get_content fs fm) (rev changes) = Inl InvalidPosition \<Longrightarrow>
   apply_changes fm fs changes ev = ((False, ''invalid_position''), fm, fs)"
  by (auto simp: apply_changes_def validate_version_def)

section \<open>Properties of the pool\<close>

lemma pool_inv_init: "pool_inv (FileManagerPool_init fs)"
  by (simp add: pool_inv_def FileManagerPool_init_def)

lemma FileManager_init_path:
  "FileManager_init fs path = Inr (fm, fs') \<Longrightarrow> file_path fm = resolve fs path \<and> version fm = 0"
  by (auto simp: FileManager_init_def split: sum.splits)

lemma get_manager_known:
  "managers st key = Some ref \<Longrightarrow> get_manager st key = Inr (ref, st)"
  by (simp add: get_manager_def)

lemma get_manager_result:
  "get_manager st key = Inr (ref, st') \<Longrightarrow>
   managers st' key = Some ref
   \<and> (\<forall>k r. managers st k = Some r \<longrightarrow> managers st' k = Some r)
   \<and> length (objects st') = length (objects st) + (if managers st key = None then 1 else 0)
   \<and> (managers st key = None \<longrightarrow> ref = length (objects st)
         \<and> managers st' = (managers st)(key \<mapsto> ref))
   \<and> (managers st key \<noteq> None \<longrightarrow> st' = st)"
  by (auto simp: get_manager_def split: option.splits sum.splits prod.splits)

lemma get_manager_raises:
  "get_manager st key = Inl (e, st') \<Longrightarrow> managers st' = managers st \<and> objects st' = objects st"
  by (auto simp: get_manager_def split: option.splits sum.splits prod.splits)

lemma pool_inv_get_manager:
  assumes inv: "pool_inv st" and g: "get_manager st key = Inr (ref, st')"
  shows "pool_inv st'"
proof (cases "managers st key")
  case (Some r)
  then show ?thesis using get_manager_result [OF g] inv by simp
next
  case None
  from get_manager_result [OF g] None
  have l: "length (objects st') = length (objects st) + 1"
    and m: "managers st' = (managers st)(key \<mapsto> length (objects st))"
    by simp_all
  show ?thesis
    unfolding pool_inv_def
  proof (intro allI impI)
    fix k r
    assume "managers st' k = Some r"
    then have "r = length (objects st) \<or> managers st k = Some r"
      by (auto simp: m split: if_splits)
    moreover have "managers st k = Some r \<Longrightarrow> r < length (objects st)"
      using inv by (simp add: pool_inv_def)
    ultimately show "r < length (objects st')"
      using l by auto
  qed
qed

lemma step_keeps:
  "pool_inv st \<Longrightarrow>
   pool_inv (step st a) \<and> (\<forall>k r. managers st k = Some r \<longrightarrow> managers (step st a) k = Some r)"
proof (cases a)
  case (Get_manager path)
  assume inv: "pool_inv st"
  show ?thesis
  proof (cases "get_manager st path")
    case (Inl res)
    obtain e st' where res: "res = (e, st')" by (cases res)
    have "managers st' = managers st" and "objects st' = objects st"
      using get_manager_raises [of st path e st'] Inl res by simp_all
    then have "pool_inv st'" using inv by (simp add: pool_inv_def)
    then show ?thesis
      using Get_manager Inl res \<open>managers st' = managers st\<close> by simp
  next
    case (Inr res)
    obtain ref st' where res: "res = (ref, st')" by (cases res)
    have "pool_inv st'" using pool_inv_get_manager [OF inv] Inr res by simp
    moreover have "\<forall>k r. managers st k = Some r \<longrightarrow> managers st' k = Some r"
      using get_manager_result [of st path ref st'] Inr res by simp
    ultimately show ?thesis using Get_manager Inr res by simp
  qed
next
  case (Update_full_content ref content)
  assume inv: "pool_inv st"
  then show ?thesis
    using Update_full_content by (auto simp: pool_inv_def split: prod.splits)
next
  case (Apply_changes ref changes ev)
  assume inv: "pool_inv st"
  then show ?thesis
    using Apply_changes by (auto simp: pool_inv_def split: prod.splits)
qed

lemma run_keeps:
  "pool_inv st \<Longrightarrow>
   pool_inv (run st acts) \<and> (\<forall>k r. managers st k = Some r \<longrightarrow> managers (run st acts) k = Some r)"
proof (induction acts arbitrary: st)
  case Nil
  then show ?case by (simp add: run_def)
next
  case (Cons a acts)
  have r: "run st (a # acts) = run (step st a) acts" by (simp add: run_def)
  from step_keeps [OF Cons.prems] have i: "pool_inv (step st a)"
    and m: "\<forall>k r. managers st k = Some r \<longrightarrow> managers (step st a) k = Some r" by simp_all
  from Cons.IH [OF i] m show ?case by (simp add: r)
qed

lemma step_known_key:
  "managers st key = Some ref \<Longrightarrow>
   managers (step st a) key = Some ref
   \<and> \<not> (a = Get_manager key \<and> length (objects st) < length (objects (step st a)))"
  by (cases a)
     (auto simp: get_manager_def split: option.splits sum.splits prod.splits)

lemma constructions_known_key:
  "managers st key = Some ref \<Longrightarrow> constructions st acts key = 0"
proof (induction acts arbitrary: st)
  case Nil
  then show ?case by simp
next
  case (Cons a acts)
  from step_known_key [OF Cons.prems, of a]
  have m: "managers (step st a) key = Some ref"
    and n: "\<not> (a = Get_manager key \<and> length (objects st) < length (objects (step st a)))"
    by simp_all
  from Cons.IH [OF m] n show ?case by simp
qed

lemma step_constructs:
  "length (objects st) < length (objects (step st (Get_manager key))) \<Longrightarrow>
   \<exists>ref. managers (step st (Get_manager key)) key = Some ref"
  by (auto simp: get_manager_def split: option.splits sum.splits prod.splits)

lemma constructions_at_most_one: "constructions st acts key \<le> 1"
proof (induction acts arbitrary: st)
  case Nil
  then show ?case by simp
next
  case (Cons a acts)
  show ?case
  proof (cases "a = Get_manager key \<and> length (objects st) < length (objects (step st a))")
    case True
    then obtain ref where "managers (step st a) key = Some ref"
      using step_constructs [of st key] by auto
    then have "constructions (step st a) acts key = 0" by (rule constructions_known_key)
    then show ?thesis using True by (simp del: step.simps)
  next
    case False
    have "constructions st (a # acts) key = 0 + constructions (step st a) acts key"
      by (simp only: constructions.simps False if_False)
    then show ?thesis using Cons.IH [of "step st a"] by (simp only: add_0)
  qed
qed

section \<open>The claims about the diff\<close>

text \<open>
  Claim C1. For every pair of texts \<open>a\<close> and \<open>b\<close>, applying the change list that
  \<open>calculate_diff a b\<close> returns to \<open>a\<close>, with the loop of \<open>apply_changes\<close> (which
  runs over the reversed list), gives exactly \<open>b\<close>, and no operation fails.
\<close>

theorem calculate_diff_round_trip: "apply_loop a (rev (calculate_diff a b)) = Inr b"
proof (cases "a = [] \<and> b \<noteq> []")
  case True
  then have "calculate_diff a b = [replace_op (int 0) (int 0) b]"
    by (simp add: calculate_diff_def)
  then show ?thesis
    using True apply_change_replace_op [of 0 a 0 b] by simp
next
  case n1: False
  show ?thesis
  proof (cases "a \<noteq> [] \<and> b = []")
    case True
    then have "calculate_diff a b = [replace_op (int 0) (int (length a)) []]"
      by (simp add: calculate_diff_def)
    then show ?thesis
      using True apply_change_replace_op [of 0 a "length a" "[]"] by simp
  next
    case n2: False
    from diff_general_shape [OF n1 n2] obtain p s where
      la: "p + s \<le> length a" and lb: "p + s \<le> length b"
      and pre: "take p a = take p b"
      and suf: "drop (length a - s) a = drop (length b - s) b"
      and cd: "calculate_diff a b =
           (if drop p (take (length a - s) a) \<noteq> drop p (take (length b - s) b)
            then [replace_op (int p) (int (length a - s - p)) (drop p (take (length b - s) b))]
            else [])"
      by blast
    show ?thesis
    proof (cases "drop p (take (length a - s) a) = drop p (take (length b - s) b)")
      case True
      have "a = take p a @ drop p (take (length a - s) a) @ drop (length a - s) a"
        using split3 [OF la] by simp
      also have "\<dots> = take p b @ drop p (take (length b - s) b) @ drop (length b - s) b"
        by (simp only: pre suf True)
      also have "\<dots> = b" using lb by (rule split3)
      finally have "a = b" .
      moreover have "calculate_diff a b = []" using cd True by simp
      ultimately show ?thesis by simp
    next
      case False
      have pa: "p \<le> length a" using la by simp
      have e: "p + (length a - s - p) = length a - s" using la by simp
      have "apply_loop a (rev (calculate_diff a b))
              = apply_change a (replace_op (int p) (int (length a - s - p))
                                  (drop p (take (length b - s) b)))"
        using cd False by (simp split: sum.splits)
      also have "\<dots> = Inr (take p a @ drop p (take (length b - s) b) @ drop (length a - s) a)"
        using apply_change_replace_op [OF pa, of "length a - s - p"] by (simp only: e)
      also have "take p a @ drop p (take (length b - s) b) @ drop (length a - s) a = b"
        using split3 [OF lb] by (simp only: pre suf)
      finally show ?thesis .
    qed
  qed
qed

theorem calculate_diff_round_trip_witness:
  "apply_loop ''Hello World'' (rev (calculate_diff ''Hello World'' ''Hello Beautiful World''))
     = Inr ''Hello Beautiful World''"
  by (rule calculate_diff_round_trip)

text \<open>
  Claim C6. On the degenerate cases \<open>calculate_diff\<close> returns exactly one operation:
  from the empty text to \<open>hello\<close> the insertion of \<open>hello\<close> at position 0 with length
  0, from \<open>hello\<close> to the empty text the deletion of 5 characters at position 0; in
  general an empty old text and a non-empty new text give the insertion of the whole
  new text at position 0 with length 0, and a non-empty old text and an empty new text
  give the deletion of the whole old text.
\<close>

theorem calculate_diff_degenerate:
  "calculate_diff [] ''hello'' = [replace_op 0 0 ''hello'']
   \<and> calculate_diff ''hello'' [] = [replace_op 0 5 []]
   \<and> (new_text \<noteq> [] \<longrightarrow> calculate_diff [] new_text = [replace_op 0 0 new_text])
   \<and> (old_text \<noteq> [] \<longrightarrow>
         calculate_diff old_text [] = [replace_op 0 (int (length old_text)) []])"
  by (simp add: calculate_diff_def)

theorem calculate_diff_degenerate_witness:
  "''note'' \<noteq> [] \<and> calculate_diff [] ''note'' = [replace_op 0 0 ''note'']
   \<and> ''draft'' \<noteq> [] \<and> calculate_diff ''draft'' [] = [replace_op 0 5 []]"
  using calculate_diff_degenerate [of "''note''" "''draft''"] by simp

text \<open>
  Claim C7. For every pair of texts the change list that \<open>calculate_diff\<close> returns has
  0 or 1 elements, and the diff of a text with itself is the empty list.
\<close>

theorem calculate_diff_at_most_one:
  "length (calculate_diff a b) \<le> 1 \<and> calculate_diff a a = []"
proof
  show "length (calculate_diff a b) \<le> 1"
    by (simp add: calculate_diff_def Let_def)
  show "calculate_diff a a = []"
    by (simp add: calculate_diff_def Let_def)
qed

theorem calculate_diff_at_most_one_witness:
  "length (calculate_diff ''Hello World'' ''Hello Beautiful World'') \<le> 1
   \<and> calculate_diff ''Hello World'' ''Hello World'' = []"
  by (rule calculate_diff_at_most_one)

section \<open>The claims about applying a patch\<close>

text \<open>
  Claim C2. A replace operation (its type, position and content present) fails with
  \<open>invalid_position\<close> exactly when its position is below 0 or above the length of the
  working text. When an operation of the list fails so at the moment the loop reaches
  it, \<open>apply_changes\<close> returns \<open>(False, 'invalid_position')\<close> and leaves the
  \<open>FileManager\<close> (its version) and the file system (the stored content) as they
  were. When the position is in bounds and position plus length runs past the end of
  the working text, the text is cut at the position, the replacement is appended and
  no error is raised.
\<close>

theorem apply_changes_invalid_position:
  "(c_type ch = Some ''replace'' \<and> c_position ch = Some p \<and> c_content ch = Some r \<longrightarrow>
      (apply_change content ch = Inl InvalidPosition) = (p < 0 \<or> p > int (length content)))
   \<and> (rev changes = before @ ch # rest
        \<and> apply_loop (get_content fs fm) before = Inr content
        \<and> apply_change content ch = Inl InvalidPosition
        \<and> (ev = None \<or> ev = Some (version fm)) \<longrightarrow>
      apply_changes fm fs changes ev = ((False, ''invalid_position''), fm, fs))
   \<and> (c_type ch = Some ''replace'' \<and> c_position ch = Some p \<and> c_content ch = Some r
        \<and> c_length ch = Some l \<and> 0 \<le> p \<and> p \<le> int (length content)
        \<and> int (length content) < p + l \<longrightarrow>
      apply_change content ch = Inr (take (nat p) content @ r))"
proof (intro conjI impI)
  assume "c_type ch = Some ''replace'' \<and> c_position ch = Some p \<and> c_content ch = Some r"
  then show "(apply_change content ch = Inl InvalidPosition) = (p < 0 \<or> p > int (length content))"
    by (auto simp: apply_change_def Let_def)
next
  assume h: "rev changes = before @ ch # rest
        \<and> apply_loop (get_content fs fm) before = Inr content
        \<and> apply_change content ch = Inl InvalidPosition
        \<and> (ev = None \<or> ev = Some (version fm))"
  then have "apply_loop (get_content fs fm) (rev changes) = Inl InvalidPosition"
    by (simp add: apply_loop_append)
  with h show "apply_changes fm fs changes ev = ((False, ''invalid_position''), fm, fs)"
    by (auto simp: apply_changes_def validate_version_def)
next
  assume "c_type ch = Some ''replace'' \<and> c_position ch = Some p \<and> c_content ch = Some r
        \<and> c_length ch = Some l \<and> 0 \<le> p \<and> p \<le> int (length content)
        \<and> int (length content) < p + l"
  then show "apply_change content ch = Inr (take (nat p) content @ r)"
    by (auto simp: apply_change_def slice_to_def slice_from_def slice_index_def min_def)
qed

theorem apply_changes_invalid_position_witness:
  "apply_change ''hello'' (replace_op 9 0 ''x'') = Inl InvalidPosition
   \<and> apply_change ''hello'' (replace_op 5 0 ''x'') = Inr ''hellox''
   \<and> apply_loop (get_content note_fs note_fm) [] = Inr ''hello''
   \<and> apply_changes note_fm note_fs [replace_op 0 0 ''a'', replace_op 9 0 ''x''] (Some 2)
       = ((False, ''invalid_position''), note_fm, note_fs)
   \<and> apply_change ''hello'' (replace_op 3 10 ''X'') = Inr ''helX''"
proof -
  have c: "get_content note_fs note_fm = ''hello''"
    by (simp add: get_content_def read_text_def note_fs_def fs_with_def note_fm_def)
  have f: "apply_change ''hello'' (replace_op 9 0 ''x'') = Inl InvalidPosition"
    using apply_changes_invalid_position
      [where ch = "replace_op 9 0 ''x''" and p = 9 and r = "''x''" and content = "''hello''"]
    by (simp add: replace_op_def)
  have ok: "apply_change ''hello'' (replace_op 5 0 ''x'') = Inr ''hellox''"
    by (simp add: apply_change_def replace_op_def slice_to_def slice_from_def slice_index_def)
  have rej: "apply_changes note_fm note_fs [replace_op 0 0 ''a'', replace_op 9 0 ''x''] (Some 2)
       = ((False, ''invalid_position''), note_fm, note_fs)"
    using apply_changes_invalid_position
      [where changes = "[replace_op 0 0 ''a'', replace_op 9 0 ''x'']" and before = "[]"
         and ch = "replace_op 9 0 ''x''" and rest = "[replace_op 0 0 ''a'']"
         and fs = note_fs and fm = note_fm and content = "''hello''" and ev = "Some 2"]
      c f
    by (simp add: note_fm_def)
  have cut: "apply_change ''hello'' (replace_op 3 10 ''X'') = Inr ''helX''"
    using apply_changes_invalid_position
      [where ch = "replace_op 3 10 ''X''" and p = 3 and r = "''X''" and l = 10
         and content = "''hello''"]
    by (simp add: replace_op_def)
  from c f ok rej cut show ?thesis by simp
qed

text \<open>
  Claim C3. For every change list: when \<open>apply_changes\<close> is called with an expected
  version that is given and differs from the version of the \<open>FileManager\<close>, it
  returns \<open>(False, 'version_mismatch')\<close> and nothing is changed: the \<open>FileManager\<close>
  and the file system after the call are the ones before it.
\<close>

theorem apply_changes_version_mismatch:
  "expected_version \<noteq> version fm \<Longrightarrow>
   apply_changes fm fs changes (Some expected_version) = ((False, ''version_mismatch''), fm, fs)"
  by (simp add: apply_changes_def validate_version_def)

theorem apply_changes_version_mismatch_witness:
  "1 \<noteq> version note_fm
   \<and> apply_changes note_fm note_fs [replace_op 0 0 ''x''] (Some 1)
       = ((False, ''version_mismatch''), note_fm, note_fs)"
proof -
  have h: "1 \<noteq> version note_fm" by (simp add: note_fm_def)
  from h apply_changes_version_mismatch [OF h, of note_fs "[replace_op 0 0 ''x'']"]
  show ?thesis by simp
qed

text \<open>
  Claim C5, as amended. \<open>apply_changes\<close> applies the operations of a change list in
  the reverse of the order of submission; it does not sort them. For every list of
  replace operations the call does what the splices of the specification do when they
  are made one after another over the reversed list: it stores their result, or is
  rejected with \<open>invalid_position\<close> where one of them fails. For a list submitted in
  ascending order of position that is the descending order of position. For a list
  submitted in ascending order, no operation reaching into the next and every position
  within the text, the text stored is the one obtained by reading every position and
  length in the text before the patch: the positions of the lower operations are still
  right when the higher ones have been applied.
\<close>

theorem apply_changes_reverse_order:
  "((ev = None \<or> ev = Some (version fm))
      \<and> spec_apply_in_order (get_content fs fm) (rev ops) = Inr patched
      \<and> writable fs (file_path fm) patched \<longrightarrow>
      apply_changes fm fs (map op_of ops) ev =
        ((True, ''success''), fm\<lparr>version := version fm + 1\<rparr>,
         fs\<lparr>files := (files fs)(file_path fm \<mapsto> patched)\<rparr>))
   \<and> ((ev = None \<or> ev = Some (version fm))
      \<and> spec_apply_in_order (get_content fs fm) (rev ops) = Inl e \<longrightarrow>
      apply_changes fm fs (map op_of ops) ev = ((False, ''invalid_position''), fm, fs))
   \<and> (sorted (map fst ops) \<and> (ev = None \<or> ev = Some (version fm))
      \<and> spec_apply_in_order (get_content fs fm) (descending ops) = Inr patched
      \<and> writable fs (file_path fm) patched \<longrightarrow>
      apply_changes fm fs (map op_of ops) ev =
        ((True, ''success''), fm\<lparr>version := version fm + 1\<rparr>,
         fs\<lparr>files := (files fs)(file_path fm \<mapsto> patched)\<rparr>))
   \<and> (disjoint_ascending ops \<and> (\<forall>x\<in>set ops. fst x \<le> length (get_content fs fm))
      \<and> (ev = None \<or> ev = Some (version fm))
      \<and> writable fs (file_path fm) (splice_original (get_content fs fm) 0 ops) \<longrightarrow>
      apply_changes fm fs (map op_of ops) ev =
        ((True, ''success''), fm\<lparr>version := version fm + 1\<rparr>,
         fs\<lparr>files := (files fs)(file_path fm \<mapsto> splice_original (get_content fs fm) 0 ops)\<rparr>))"
proof -
  have loop: "apply_loop (get_content fs fm) (rev (map op_of ops))
                = spec_apply_in_order (get_content fs fm) (rev ops)"
    using apply_loop_spec [of "get_content fs fm" "rev ops"] by (simp add: rev_map)
  have ok: "apply_changes fm fs (map op_of ops) ev =
        ((True, ''success''), fm\<lparr>version := version fm + 1\<rparr>,
         fs\<lparr>files := (files fs)(file_path fm \<mapsto> t)\<rparr>)"
    if "ev = None \<or> ev = Some (version fm)"
      and "spec_apply_in_order (get_content fs fm) (rev ops) = Inr t"
      and "writable fs (file_path fm) t" for t
    using that loop apply_changes_success [of fs fm t ev "map op_of ops"] by simp
  have bad: "apply_changes fm fs (map op_of ops) ev = ((False, ''invalid_position''), fm, fs)"
    if "ev = None \<or> ev = Some (version fm)"
      and f: "spec_apply_in_order (get_content fs fm) (rev ops) = Inl e"
  proof -
    from f have "e = InvalidPosition" by (rule spec_apply_in_order_InvalidPosition)
    with f loop have "apply_loop (get_content fs fm) (rev (map op_of ops)) = Inl InvalidPosition"
      by simp
    with that(1) show ?thesis by (simp add: apply_changes_invalid)
  qed
  have desc: "apply_changes fm fs (map op_of ops) ev =
        ((True, ''success''), fm\<lparr>version := version fm + 1\<rparr>,
         fs\<lparr>files := (files fs)(file_path fm \<mapsto> patched)\<rparr>)"
    if "sorted (map fst ops) \<and> (ev = None \<or> ev = Some (version fm))
      \<and> spec_apply_in_order (get_content fs fm) (descending ops) = Inr patched
      \<and> writable fs (file_path fm) patched"
  proof -
    from that have "descending ops = rev ops" by (simp add: descending_of_sorted)
    with that show ?thesis using ok [of patched] by simp
  qed
  have orig: "apply_changes fm fs (map op_of ops) ev =
        ((True, ''success''), fm\<lparr>version := version fm + 1\<rparr>,
         fs\<lparr>files := (files fs)(file_path fm \<mapsto> splice_original (get_content fs fm) 0 ops)\<rparr>)"
    if h: "disjoint_ascending ops \<and> (\<forall>x\<in>set ops. fst x \<le> length (get_content fs fm))
      \<and> (ev = None \<or> ev = Some (version fm))
      \<and> writable fs (file_path fm) (splice_original (get_content fs fm) 0 ops)"
  proof -
    from h have "spec_apply_in_order (get_content fs fm) (rev ops)
                   = Inr (splice_original (get_content fs fm) 0 ops)"
      using spec_splice_original [of ops "get_content fs fm" 0] by simp
    with h show ?thesis using ok [of "splice_original (get_content fs fm) 0 ops"] by simp
  qed
  from ok [of patched] bad desc orig show ?thesis by blast
qed

theorem apply_changes_reverse_order_witness:
  "get_content note_fs note_fm = ''hello''
   \<and> spec_apply_in_order ''hello'' (rev [(1, 1, ''XXX''), (3, 2, ''Y'')]) = Inr ''hXXXlY''
   \<and> spec_apply_in_order ''hello'' [(1, 1, ''XXX''), (3, 2, ''Y'')] = Inr ''hXXYlo''
   \<and> descending [(1, 1, ''XXX''), (3, 2, ''Y'')] = rev [(1, 1, ''XXX''), (3, 2, ''Y'')]
   \<and> splice_original ''hello'' 0 [(1, 1, ''XXX''), (3, 2, ''Y'')] = ''hXXXlY''
   \<and> apply_changes note_fm note_fs (map op_of [(1, 1, ''XXX''), (3, 2, ''Y'')]) (Some 2)
       = ((True, ''success''), note_fm\<lparr>version := version note_fm + 1\<rparr>,
          note_fs\<lparr>files := (files note_fs)(file_path note_fm \<mapsto> ''hXXXlY'')\<rparr>)
   \<and> spec_apply_in_order ''hello'' (rev [(9, 0, ''x'')]) = Inl InvalidPosition
   \<and> apply_changes note_fm note_fs (map op_of [(9, 0, ''x'')]) (Some 2)
       = ((False, ''invalid_position''), note_fm, note_fs)"
proof -
  have c: "get_content note_fs note_fm = ''hello''"
    by (simp add: get_content_def read_text_def note_fs_def fs_with_def note_fm_def)
  have v: "Some (2::int) = None \<or> Some 2 = Some (version note_fm)" by (simp add: note_fm_def)
  have w: "writable note_fs (file_path note_fm) ''hXXXlY''"
    by (simp add: writable_def note_fs_def fs_with_def)
  have r: "spec_apply_in_order ''hello'' (rev [(1, 1, ''XXX''), (3, 2, ''Y'')]) = Inr ''hXXXlY''"
    by (simp add: spec_splice_def)
  have f: "spec_apply_in_order ''hello'' [(1, 1, ''XXX''), (3, 2, ''Y'')] = Inr ''hXXYlo''"
    by (simp add: spec_splice_def)
  have s: "sorted (map fst [(1::nat, 1::nat, ''XXX''), (3, 2, ''Y'')])" by simp
  have d: "descending [(1::nat, 1::nat, ''XXX''), (3, 2, ''Y'')] = rev [(1, 1, ''XXX''), (3, 2, ''Y'')]"
    using s by (rule descending_of_sorted)
  have da: "disjoint_ascending [(1, 1, ''XXX''), (3, 2, ''Y'')]"
    by (simp add: disjoint_ascending_def)
  have b: "\<forall>x\<in>set [(1::nat, 1::nat, ''XXX''), (3, 2, ''Y'')].
             fst x \<le> length (get_content note_fs note_fm)"
    by (simp add: c)
  have sp: "splice_original ''hello'' 0 [(1, 1, ''XXX''), (3, 2, ''Y'')] = ''hXXXlY''"
    by simp
  have x: "spec_apply_in_order ''hello'' (rev [(9, 0, ''x'')]) = Inl InvalidPosition"
    by (simp add: spec_splice_def)
  note t = apply_changes_reverse_order
    [where ops = "[(1, 1, ''XXX''), (3, 2, ''Y'')]" and fs = note_fs and fm = note_fm
       and ev = "Some 2" and patched = "''hXXXlY''"]
  have a1: "apply_changes note_fm note_fs (map op_of [(1, 1, ''XXX''), (3, 2, ''Y'')]) (Some 2)
       = ((True, ''success''), note_fm\<lparr>version := version note_fm + 1\<rparr>,
          note_fs\<lparr>files := (files note_fs)(file_path note_fm \<mapsto> ''hXXXlY'')\<rparr>)"
    using t [THEN conjunct1] v r w by (simp only: c simp_thms)
  have a3: "apply_changes note_fm note_fs (map op_of [(1, 1, ''XXX''), (3, 2, ''Y'')]) (Some 2)
       = ((True, ''success''), note_fm\<lparr>version := version note_fm + 1\<rparr>,
          note_fs\<lparr>files := (files note_fs)(file_path note_fm \<mapsto> ''hXXXlY'')\<rparr>)"
    using t [THEN conjunct2, THEN conjunct2, THEN conjunct1] s v r w
    by (simp only: c d simp_thms)
  have a4: "apply_changes note_fm note_fs (map op_of [(1, 1, ''XXX''), (3, 2, ''Y'')]) (Some 2)
       = ((True, ''success''), note_fm\<lparr>version := version note_fm + 1\<rparr>,
          note_fs\<lparr>files := (files note_fs)(file_path note_fm \<mapsto> ''hXXXlY'')\<rparr>)"
    using t [THEN conjunct2, THEN conjunct2, THEN conjunct2] da b v w
    by (simp only: c sp simp_thms)
  have a2: "apply_changes note_fm note_fs (map op_of [(9, 0, ''x'')]) (Some 2)
       = ((False, ''invalid_position''), note_fm, note_fs)"
    using apply_changes_reverse_order
      [where ops = "[(9, 0, ''x'')]" and fs = note_fs and fm = note_fm and ev = "Some 2"
         and e = InvalidPosition, THEN conjunct2, THEN conjunct1] v x
    by (simp only: c simp_thms)
  from c r f d sp a1 x a2 show ?thesis by (intro conjI)
qed

text \<open>
  The claim as it was written, that the operations are applied in descending order of
  position, fails on a list that is not submitted in ascending order: for the insertion
  of \<open>X\<close> at 3 submitted before the insertion of \<open>YY\<close> at 0 into \<open>abcdef\<close>, the
  call applies the insertion at 0 first and stores \<open>YYaXbcdef\<close>, where the descending
  order of position gives \<open>YYabcXdef\<close>.
\<close>

theorem apply_changes_reverse_order_counterexample:
  "get_content abc_fs note_fm = ''abcdef''
   \<and> fst (apply_changes note_fm abc_fs (map op_of [(3, 0, ''X''), (0, 0, ''YY'')]) None)
       = (True, ''success'')
   \<and> files (snd (snd (apply_changes note_fm abc_fs (map op_of [(3, 0, ''X''), (0, 0, ''YY'')]) None)))
        ''/srv/note.txt'' = Some ''YYaXbcdef''
   \<and> descending [(3, 0, ''X''), (0, 0, ''YY'')] = [(3, 0, ''X''), (0, 0, ''YY'')]
   \<and> spec_apply_in_order ''abcdef'' (descending [(3, 0, ''X''), (0, 0, ''YY'')])
       = Inr ''YYabcXdef''"
proof -
  have c: "get_content abc_fs note_fm = ''abcdef''"
    by (simp add: get_content_def read_text_def abc_fs_def fs_with_def note_fm_def)
  have l: "apply_loop ''abcdef'' (rev (map op_of [(3, 0, ''X''), (0, 0, ''YY'')]))
             = Inr ''YYaXbcdef''"
    by (simp add: apply_loop_spec [of _ "[(0, 0, ''YY''), (3, 0, ''X'')]", simplified]
          spec_splice_def)
  have w: "writable abc_fs (file_path note_fm) ''YYaXbcdef''"
    by (simp add: writable_def abc_fs_def fs_with_def)
  have a: "apply_changes note_fm abc_fs (map op_of [(3, 0, ''X''), (0, 0, ''YY'')]) None
             = ((True, ''success''), note_fm\<lparr>version := version note_fm + 1\<rparr>,
                abc_fs\<lparr>files := (files abc_fs)(file_path note_fm \<mapsto> ''YYaXbcdef'')\<rparr>)"
    using apply_changes_success [OF w, of None "map op_of [(3, 0, ''X''), (0, 0, ''YY'')]"] l
    by (simp only: c simp_thms)
  have d: "descending [(3::nat, 0::nat, ''X''), (0, 0, ''YY'')] = [(3, 0, ''X''), (0, 0, ''YY'')]"
    by (simp add: descending_def)
  have s: "spec_apply_in_order ''abcdef'' (descending [(3, 0, ''X''), (0, 0, ''YY'')])
       = Inr ''YYabcXdef''"
    by (simp add: d spec_splice_def)
  have fp: "file_path note_fm = ''/srv/note.txt''" by (simp add: note_fm_def)
  have p: "files (snd (snd (apply_changes note_fm abc_fs (map op_of [(3, 0, ''X''), (0, 0, ''YY'')]) None)))
        ''/srv/note.txt'' = Some ''YYaXbcdef''"
    unfolding a by (simp add: fp)
  have o: "fst (apply_changes note_fm abc_fs (map op_of [(3, 0, ''X''), (0, 0, ''YY'')]) None)
       = (True, ''success'')"
    unfolding a by simp
  from c o p d s show ?thesis by (intro conjI)
qed




text \<open>
  Claim C10. A replace operation with no \<open>length\<close> key is treated as one of length 0:
  it does what the same operation with length 0 does, an insertion of its content at
  its position, and the missing key raises no \<open>KeyError\<close>; \<open>apply_changes\<close> on such
  an operation with a position within the text succeeds.
\<close>

theorem apply_change_absent_length:
  "c_type ch = Some ''replace'' \<Longrightarrow> c_position ch = Some p \<Longrightarrow> c_content ch = Some r \<Longrightarrow>
   c_length ch = None \<Longrightarrow>
   apply_change content ch = apply_change content (ch\<lparr>c_length := Some 0\<rparr>)
   \<and> apply_change content ch =
       (if p < 0 \<or> p > int (length content) then Inl InvalidPosition
        else Inr (take (nat p) content @ r @ drop (nat p) content))
   \<and> (0 \<le> p \<and> p \<le> int (length (get_content fs fm))
        \<and> writable fs (file_path fm)
              (take (nat p) (get_content fs fm) @ r @ drop (nat p) (get_content fs fm)) \<longrightarrow>
        apply_changes fm fs [ch] None =
          ((True, ''success''), fm\<lparr>version := version fm + 1\<rparr>,
           fs\<lparr>files := (files fs)(file_path fm \<mapsto>
                 take (nat p) (get_content fs fm) @ r @ drop (nat p) (get_content fs fm))\<rparr>))"
proof -
  assume h: "c_type ch = Some ''replace''" "c_position ch = Some p" "c_content ch = Some r"
    "c_length ch = None"
  have a: "apply_change t ch =
       (if p < 0 \<or> p > int (length t) then Inl InvalidPosition
        else Inr (take (nat p) t @ r @ drop (nat p) t))" for t
    using h by (auto simp: apply_change_def slice_to_def slice_from_def slice_index_def min_def)
  have b: "apply_change content ch = apply_change content (ch\<lparr>c_length := Some 0\<rparr>)"
    using h by (simp add: apply_change_def)
  have c: "apply_changes fm fs [ch] None =
          ((True, ''success''), fm\<lparr>version := version fm + 1\<rparr>,
           fs\<lparr>files := (files fs)(file_path fm \<mapsto>
                 take (nat p) (get_content fs fm) @ r @ drop (nat p) (get_content fs fm))\<rparr>)"
    if "0 \<le> p \<and> p \<le> int (length (get_content fs fm))
        \<and> writable fs (file_path fm)
              (take (nat p) (get_content fs fm) @ r @ drop (nat p) (get_content fs fm))"
    using that a [of "get_content fs fm"]
      apply_changes_success [of fs fm
        "take (nat p) (get_content fs fm) @ r @ drop (nat p) (get_content fs fm)" None "[ch]"]
    by simp
  from a [of content] b c show ?thesis by simp
qed

theorem apply_change_absent_length_witness:
  "apply_change ''hello''
     \<lparr>c_type = Some ''replace'', c_position = Some 2, c_content = Some ''XY'', c_length = None\<rparr>
     = Inr ''heXYllo''
   \<and> apply_changes note_fm note_fs
        [\<lparr>c_type = Some ''replace'', c_position = Some 2, c_content = Some ''XY'',
          c_length = None\<rparr>] None
     = ((True, ''success''), note_fm\<lparr>version := version note_fm + 1\<rparr>,
        note_fs\<lparr>files := (files note_fs)(file_path note_fm \<mapsto> ''heXYllo'')\<rparr>)"
proof -
  define ch where
    "ch = \<lparr>c_type = Some ''replace'', c_position = Some 2, c_content = Some ''XY'',
            c_length = None\<rparr>"
  have c: "get_content note_fs note_fm = ''hello''"
    by (simp add: get_content_def read_text_def note_fs_def fs_with_def note_fm_def)
  have w: "writable note_fs (file_path note_fm) content" for content
    by (simp add: writable_def note_fs_def fs_with_def)
  have t: "apply_change ''hello'' ch = apply_change ''hello'' (ch\<lparr>c_length := Some 0\<rparr>)
   \<and> apply_change ''hello'' ch =
       (if (2::int) < 0 \<or> 2 > int (length ''hello'') then Inl InvalidPosition
        else Inr (take (nat 2) ''hello'' @ ''XY'' @ drop (nat 2) ''hello''))
   \<and> (0 \<le> (2::int) \<and> 2 \<le> int (length (get_content note_fs note_fm))
        \<and> writable note_fs (file_path note_fm)
              (take (nat 2) (get_content note_fs note_fm) @ ''XY''
                 @ drop (nat 2) (get_content note_fs note_fm)) \<longrightarrow>
        apply_changes note_fm note_fs [ch] None =
          ((True, ''success''), note_fm\<lparr>version := version note_fm + 1\<rparr>,
           note_fs\<lparr>files := (files note_fs)(file_path note_fm \<mapsto>
                 take (nat 2) (get_content note_fs note_fm) @ ''XY''
                   @ drop (nat 2) (get_content note_fs note_fm))\<rparr>))"
    by (rule apply_change_absent_length) (simp_all add: ch_def)
  have e: "take (nat 2) ''hello'' @ ''XY'' @ drop (nat 2) ''hello'' = ''heXYllo''"
    by simp
  have a: "apply_change ''hello'' ch = Inr ''heXYllo''"
    using t [THEN conjunct2, THEN conjunct1] by simp
  have b: "apply_changes note_fm note_fs [ch] None =
          ((True, ''success''), note_fm\<lparr>version := version note_fm + 1\<rparr>,
           note_fs\<lparr>files := (files note_fs)(file_path note_fm \<mapsto> ''heXYllo'')\<rparr>)"
    using t [THEN conjunct2, THEN conjunct2] w by (simp add: c)
  from a b show ?thesis by (simp only: ch_def simp_thms)
qed

section \<open>The claim about the version counter\<close>

text \<open>
  Claim C4. The version of a \<open>FileManager\<close> is 0 when it is constructed. A call of
  \<open>update_full_content\<close> or of \<open>apply_changes\<close> that succeeds adds exactly 1 to it,
  one that fails leaves it as it is, so it never goes down. Two successful calls of
  \<open>update_full_content\<close> on a new \<open>FileManager\<close> give the versions 1 and 2.
\<close>

theorem version_counter:
  "(FileManager_init fs path = Inr (fm0, fs0) \<longrightarrow> version fm0 = 0)
   \<and> (update_full_content fm fs content = (ok, fm', fs') \<longrightarrow>
        version fm' = (if ok then version fm + 1 else version fm) \<and> version fm \<le> version fm')
   \<and> (apply_changes fm fs changes ev = ((ok, msg), fm', fs') \<longrightarrow>
        version fm' = (if ok then version fm + 1 else version fm) \<and> version fm \<le> version fm')
   \<and> (FileManager_init fs path = Inr (fm0, fs0)
        \<and> update_full_content fm0 fs0 c1 = (True, fm1, fs1)
        \<and> update_full_content fm1 fs1 c2 = (True, fm2, fs2) \<longrightarrow>
        get_version fm1 = 1 \<and> get_version fm2 = 2)"
proof (intro conjI impI)
  assume "FileManager_init fs path = Inr (fm0, fs0)"
  then show "version fm0 = 0"
    by (auto dest: FileManager_init_path)
next
  assume u: "update_full_content fm fs content = (ok, fm', fs')"
  then show "version fm' = (if ok then version fm + 1 else version fm)"
    by (simp add: update_full_content_version)
  from u show "version fm \<le> version fm'"
    using update_full_content_version [OF u] by (simp split: if_splits)
next
  assume u: "apply_changes fm fs changes ev = ((ok, msg), fm', fs')"
  then show "version fm' = (if ok then version fm + 1 else version fm)"
    by (simp add: apply_changes_version)
  from u show "version fm \<le> version fm'"
    using apply_changes_version [OF u] by (simp split: if_splits)
next
  assume h: "FileManager_init fs path = Inr (fm0, fs0)
        \<and> update_full_content fm0 fs0 c1 = (True, fm1, fs1)
        \<and> update_full_content fm1 fs1 c2 = (True, fm2, fs2)"
  then have v0: "version fm0 = 0"
    by (auto dest: FileManager_init_path)
  from h have "version fm1 = version fm0 + 1" and "version fm2 = version fm1 + 1"
    using update_full_content_version [of fm0 fs0 c1 True fm1 fs1]
          update_full_content_version [of fm1 fs1 c2 True fm2 fs2] by simp_all
  with v0 show "get_version fm1 = 1" and "get_version fm2 = 2"
    by (simp_all add: get_version_def)
qed

theorem version_counter_witness:
  "FileManager_init empty_fs ''note.txt''
     = Inr (\<lparr>file_path = ''/srv/note.txt'', version = 0\<rparr>, disk note_st)
   \<and> update_full_content \<lparr>file_path = ''/srv/note.txt'', version = 0\<rparr> (disk note_st) ''one''
     = (True, \<lparr>file_path = ''/srv/note.txt'', version = 1\<rparr>,
        fs_with [''/srv/note.txt'' \<mapsto> ''one''])
   \<and> update_full_content \<lparr>file_path = ''/srv/note.txt'', version = 1\<rparr>
        (fs_with [''/srv/note.txt'' \<mapsto> ''one'']) ''two''
     = (True, \<lparr>file_path = ''/srv/note.txt'', version = 2\<rparr>,
        fs_with [''/srv/note.txt'' \<mapsto> ''two''])
   \<and> get_version \<lparr>file_path = ''/srv/note.txt'', version = 1\<rparr> = 1
   \<and> get_version \<lparr>file_path = ''/srv/note.txt'', version = 2\<rparr> = 2
   \<and> apply_changes note_fm note_fs [replace_op 9 0 ''x''] None
     = ((False, ''invalid_position''), note_fm, note_fs)
   \<and> version note_fm \<le> version note_fm"
proof -
  have i: "FileManager_init empty_fs ''note.txt''
     = Inr (\<lparr>file_path = ''/srv/note.txt'', version = 0\<rparr>, disk note_st)"
    by (simp add: FileManager_init_def ensure_file_exists_def write_text_def empty_fs_def
          fs_with_def note_st_def)
  have u1: "update_full_content \<lparr>file_path = ''/srv/note.txt'', version = 0\<rparr> (disk note_st) ''one''
     = (True, \<lparr>file_path = ''/srv/note.txt'', version = 1\<rparr>,
        fs_with [''/srv/note.txt'' \<mapsto> ''one''])"
    by (simp add: update_full_content_def write_text_def increment_version_def note_st_def
          fs_with_def)
  have u2: "update_full_content \<lparr>file_path = ''/srv/note.txt'', version = 1\<rparr>
        (fs_with [''/srv/note.txt'' \<mapsto> ''one'']) ''two''
     = (True, \<lparr>file_path = ''/srv/note.txt'', version = 2\<rparr>,
        fs_with [''/srv/note.txt'' \<mapsto> ''two''])"
    by (simp add: update_full_content_def write_text_def increment_version_def fs_with_def)
  have a: "apply_changes note_fm note_fs [replace_op 9 0 ''x''] None
     = ((False, ''invalid_position''), note_fm, note_fs)"
    by (simp add: apply_changes_def get_content_def read_text_def note_fs_def fs_with_def
          note_fm_def apply_change_def replace_op_def)
  from version_counter
    [where fs = empty_fs and path = "''note.txt''"
       and ?fm0.0 = "\<lparr>file_path = ''/srv/note.txt'', version = 0\<rparr>" and ?fs0.0 = "disk note_st"
       and ?c1.0 = "''one''" and ?fm1.0 = "\<lparr>file_path = ''/srv/note.txt'', version = 1\<rparr>"
       and ?fs1.0 = "fs_with [''/srv/note.txt'' \<mapsto> ''one'']"
       and ?c2.0 = "''two''" and ?fm2.0 = "\<lparr>file_path = ''/srv/note.txt'', version = 2\<rparr>"
       and ?fs2.0 = "fs_with [''/srv/note.txt'' \<mapsto> ''two'']"]
    version_counter
    [where fm = note_fm and fs = note_fs and changes = "[replace_op 9 0 ''x'']" and ev = None
       and ok = False and msg = "''invalid_position''" and fm' = note_fm and fs' = note_fs]
    i u1 u2 a
  show ?thesis by simp
qed

section \<open>The claim about the pool\<close>

text \<open>
  Claim C8. \<open>get_manager\<close> is idempotent for a key. Let the pool be in any state \<open>s\<close>
  it reaches from its construction, and let \<open>get_manager\<close> return the reference \<open>h\<close>
  for the key \<open>k\<close>. Then after any further calls of \<open>get_manager\<close>, for any keys, and
  any updates through references, \<open>get_manager\<close> returns the same reference \<open>h\<close> for
  \<open>k\<close> and leaves the state as it is. The first call constructed one object where the
  key was not yet in \<open>managers\<close> and none where it was, the later calls for \<open>k\<close>
  construct none, and over the whole life of the pool the calls for any one key
  construct at most one. An update made through \<open>h\<close> is seen through the reference a
  later call for \<open>k\<close> returns: that reference is \<open>h\<close>, its version is one more and
  its content is the text written, as it is read.
\<close>

theorem get_manager_idempotent:
  assumes s: "s = run (FileManagerPool_init fs) before"
    and g: "get_manager s k = Inr (h, st)"
  shows "get_manager (run st acts) k = Inr (h, run st acts)
    \<and> length (objects st) = length (objects s) + (if managers s k = None then 1 else 0)
    \<and> constructions s [Get_manager k] k = (if managers s k = None then 1 else 0)
    \<and> constructions st acts k = 0
    \<and> constructions (FileManagerPool_init fs) trace key \<le> 1
    \<and> h < length (objects st)
    \<and> (writable (disk st) (file_path (objects st ! h)) content \<longrightarrow>
          get_manager (step st (Update_full_content h content)) k
            = Inr (h, step st (Update_full_content h content))
          \<and> get_version (objects (step st (Update_full_content h content)) ! h)
              = get_version (objects st ! h) + 1
          \<and> get_content (disk (step st (Update_full_content h content)))
               (objects (step st (Update_full_content h content)) ! h)
              = universal_newlines content)"
proof -
  have inv0: "pool_inv s" using run_keeps [OF pool_inv_init] s by simp
  have ist: "pool_inv st" using pool_inv_get_manager [OF inv0 g] .
  have m: "managers st k = Some h" using get_manager_result [OF g] by simp
  have mr: "managers (run st acts) k = Some h"
    using run_keeps [OF ist, of acts] m by simp
  have hb: "h < length (objects st)"
    using ist m by (simp add: pool_inv_def)
  have grow: "length (objects st) = length (objects s) + (if managers s k = None then 1 else 0)"
    using get_manager_result [OF g] by simp
  have st: "step s (Get_manager k) = st" using g by simp
  have c1: "get_manager (run st acts) k = Inr (h, run st acts)"
    using mr by (rule get_manager_known)
  have c3: "constructions s [Get_manager k] k = (if managers s k = None then 1 else 0)"
    using grow by (simp add: st del: step.simps)
  have c4: "constructions st acts k = 0"
    using m by (rule constructions_known_key)
  have c5: "constructions (FileManagerPool_init fs) trace key \<le> 1"
    by (rule constructions_at_most_one)
  have c7: "get_manager (step st (Update_full_content h content)) k
            = Inr (h, step st (Update_full_content h content))
          \<and> get_version (objects (step st (Update_full_content h content)) ! h)
              = get_version (objects st ! h) + 1
          \<and> get_content (disk (step st (Update_full_content h content)))
               (objects (step st (Update_full_content h content)) ! h)
              = universal_newlines content"
    if w: "writable (disk st) (file_path (objects st ! h)) content"
  proof -
    define fm where "fm = objects st ! h"
    have u: "update_full_content fm (disk st) content =
       (True, fm\<lparr>version := version fm + 1\<rparr>,
        (disk st)\<lparr>files := (files (disk st))(file_path fm \<mapsto> content)\<rparr>)"
      using w unfolding fm_def by (rule update_full_content_success)
    have e: "step st (Update_full_content h content) =
       st\<lparr>disk := (disk st)\<lparr>files := (files (disk st))(file_path fm \<mapsto> content)\<rparr>,
          objects := (objects st)[h := fm\<lparr>version := version fm + 1\<rparr>]\<rparr>"
      using hb u by (simp add: fm_def)
    have "managers (step st (Update_full_content h content)) k = Some h"
      unfolding e using m by simp
    then have a: "get_manager (step st (Update_full_content h content)) k
            = Inr (h, step st (Update_full_content h content))"
      by (rule get_manager_known)
    have b: "get_version (objects (step st (Update_full_content h content)) ! h)
              = get_version (objects st ! h) + 1"
      unfolding e using hb by (simp add: get_version_def fm_def)
    have c: "get_content (disk (step st (Update_full_content h content)))
               (objects (step st (Update_full_content h content)) ! h)
              = universal_newlines content"
      unfolding e using hb by (simp add: get_content_after_write)
    from a b c show ?thesis by (intro conjI)
  qed
  from c1 grow c3 c4 c5 hb c7 show ?thesis by blast
qed

theorem get_manager_idempotent_witness:
  "get_manager (run (FileManagerPool_init empty_fs) []) ''note.txt'' = Inr (0, note_st)
   \<and> file_path (objects note_st ! 0) = ''/srv/note.txt''
   \<and> constructions (run (FileManagerPool_init empty_fs) []) [Get_manager ''note.txt''] ''note.txt''
       = 1
   \<and> get_manager
        (run note_st [Get_manager ''other.txt'', Update_full_content 0 ''hi'', Get_manager ''note.txt''])
        ''note.txt''
       = Inr (0, run note_st
                   [Get_manager ''other.txt'', Update_full_content 0 ''hi'', Get_manager ''note.txt''])
   \<and> constructions note_st
        [Get_manager ''other.txt'', Update_full_content 0 ''hi'', Get_manager ''note.txt'']
        ''note.txt'' = 0
   \<and> writable (disk note_st) (file_path (objects note_st ! 0)) ''hi''
   \<and> get_manager (step note_st (Update_full_content 0 ''hi'')) ''note.txt''
       = Inr (0, step note_st (Update_full_content 0 ''hi''))
   \<and> get_version (objects (step note_st (Update_full_content 0 ''hi'')) ! 0) = 1
   \<and> get_content (disk (step note_st (Update_full_content 0 ''hi'')))
        (objects (step note_st (Update_full_content 0 ''hi'')) ! 0) = ''hi''"
proof -
  have g: "get_manager (run (FileManagerPool_init empty_fs) []) ''note.txt'' = Inr (0, note_st)"
    by (simp add: run_def FileManagerPool_init_def get_manager_def FileManager_init_def
          ensure_file_exists_def write_text_def empty_fs_def fs_with_def note_st_def)
  have m: "managers (run (FileManagerPool_init empty_fs) []) ''note.txt'' = None"
    by (simp add: run_def FileManagerPool_init_def)
  have p: "file_path (objects note_st ! 0) = ''/srv/note.txt''"
    by (simp add: note_st_def)
  have w: "writable (disk note_st) (file_path (objects note_st ! 0)) ''hi''"
    by (simp add: writable_def note_st_def fs_with_def)
  have v: "get_version (objects note_st ! 0) = 0"
    by (simp add: get_version_def note_st_def)
  have n: "universal_newlines ''hi'' = ''hi''" by simp
  note t = get_manager_idempotent
    [OF refl g,
     of "[Get_manager ''other.txt'', Update_full_content 0 ''hi'', Get_manager ''note.txt'']"
        "[]" "''note.txt''" "''hi''"]
  have a: "get_manager
        (run note_st [Get_manager ''other.txt'', Update_full_content 0 ''hi'', Get_manager ''note.txt''])
        ''note.txt''
       = Inr (0, run note_st
                   [Get_manager ''other.txt'', Update_full_content 0 ''hi'', Get_manager ''note.txt''])"
    using t [THEN conjunct1] .
  have c1: "constructions (run (FileManagerPool_init empty_fs) []) [Get_manager ''note.txt'']
              ''note.txt'' = 1"
    using t [THEN conjunct2, THEN conjunct2, THEN conjunct1] by (simp only: m simp_thms if_True)
  have c0: "constructions note_st
        [Get_manager ''other.txt'', Update_full_content 0 ''hi'', Get_manager ''note.txt'']
        ''note.txt'' = 0"
    using t [THEN conjunct2, THEN conjunct2, THEN conjunct2, THEN conjunct1] .
  have u: "get_manager (step note_st (Update_full_content 0 ''hi'')) ''note.txt''
            = Inr (0, step note_st (Update_full_content 0 ''hi''))
          \<and> get_version (objects (step note_st (Update_full_content 0 ''hi'')) ! 0)
              = get_version (objects note_st ! 0) + 1
          \<and> get_content (disk (step note_st (Update_full_content 0 ''hi'')))
               (objects (step note_st (Update_full_content 0 ''hi'')) ! 0)
              = universal_newlines ''hi''"
    using t w by blast
  have u1: "get_manager (step note_st (Update_full_content 0 ''hi'')) ''note.txt''
            = Inr (0, step note_st (Update_full_content 0 ''hi''))"
    using u by (rule conjunct1)
  have u2: "get_version (objects (step note_st (Update_full_content 0 ''hi'')) ! 0) = 1"
    using u [THEN conjunct2, THEN conjunct1] by (simp only: v)
  have u3: "get_content (disk (step note_st (Update_full_content 0 ''hi'')))
               (objects (step note_st (Update_full_content 0 ''hi'')) ! 0) = ''hi''"
    using u [THEN conjunct2, THEN conjunct2] by (simp only: n)
  from g p c1 a c0 w u1 u2 u3 show ?thesis by (intro conjI)
qed

end
